theory Spec2Isabelle
  imports Main "HOL-Library.Multiset"
begin

section \<open>Rule table\<close>

text \<open>
  The five choices and the three duel results, in the order of the source's enums.
\<close>

datatype Choice = ROCK | SCISSORS | PAPER | LIZARD | SPOCK

datatype DuelResult = WIN | LOSE | DRAW

text \<open>
  Two ways a call can fail. \<open>StdException\<close> is a \<open>std::exception\<close> leaving the
  function: \<open>main\<close> wraps \<open>setup\<close> and \<open>run\<close> in a handler for \<open>std::exception\<close> that
  prints the message and ends the tournament, so a thrown exception is reported.
  \<open>UndefinedBehaviour\<close> is an unchecked \<open>operator[]\<close> read outside a vector: nothing
  is thrown, so nothing is caught and nothing is reported.
\<close>

datatype failure = StdException | UndefinedBehaviour

primrec reported :: "failure \<Rightarrow> bool" where
  "reported StdException = True"
| "reported UndefinedBehaviour = False"

text \<open>
  \<open>GameRules::getWinsAgainst\<close> is a \<open>std::map\<close> from a choice to a \<open>std::map\<close> from
  the choices it beats to a sentence. Both levels have pairwise distinct keys, so the
  association lists below, read with \<^const>\<open>map_of\<close>, are the maps. The sentences of the
  source are Russian; they are given in English here, and no function of the engine
  reads them (\<open>compare\<close> only tests whether a key is present).
\<close>

definition getWinsAgainst :: "(Choice \<times> (Choice \<times> string) list) list" where
  "getWinsAgainst =
    [(SCISSORS, [(PAPER, ''Scissors cut paper''),
                 (LIZARD, ''Scissors decapitate lizard'')]),
     (PAPER,    [(ROCK, ''Paper covers rock''),
                 (SPOCK, ''Paper disproves Spock'')]),
     (ROCK,     [(LIZARD, ''Rock crushes lizard''),
                 (SCISSORS, ''Rock breaks scissors'')]),
     (LIZARD,   [(SPOCK, ''Lizard poisons Spock''),
                 (PAPER, ''Lizard eats paper'')]),
     (SPOCK,    [(SCISSORS, ''Spock smashes scissors''),
                 (ROCK, ''Spock vaporizes rock'')])]"

text \<open>
  \<open>GameRules::compare\<close>: equal choices draw; otherwise the first choice wins when the
  table has an entry for it that contains the second choice, and loses in every other
  case (also when the table has no entry for the first choice).
\<close>

definition compare :: "Choice \<Rightarrow> Choice \<Rightarrow> DuelResult" where
  "compare choice1 choice2 =
    (if choice1 = choice2 then DRAW
     else (case map_of getWinsAgainst choice1 of
             Some beaten \<Rightarrow>
               (case map_of beaten choice2 of
                  Some description \<Rightarrow> WIN
                | None \<Rightarrow> LOSE)
           | None \<Rightarrow> LOSE))"

text \<open>
  \<open>GameRules::getDescription\<close> reads both maps with \<open>at\<close>, which throws
  \<open>std::out_of_range\<close> for a missing key.
\<close>

definition getDescription :: "Choice \<Rightarrow> Choice \<Rightarrow> failure + string" where
  "getDescription winner loser =
    (case map_of getWinsAgainst winner of
       None \<Rightarrow> Inl StdException
     | Some beaten \<Rightarrow>
         (case map_of beaten loser of
            None \<Rightarrow> Inl StdException
          | Some description \<Rightarrow> Inr description))"

text \<open>
  The ten winning pairs as the specification lists them: Scissors beats Paper and
  Lizard; Paper beats Rock and Spock; Rock beats Lizard and Scissors; Lizard beats
  Spock and Paper; Spock beats Scissors and Rock.
\<close>

definition stated_winning_pairs :: "(Choice \<times> Choice) list" where
  "stated_winning_pairs =
    [(SCISSORS, PAPER), (SCISSORS, LIZARD),
     (PAPER, ROCK), (PAPER, SPOCK),
     (ROCK, LIZARD), (ROCK, SCISSORS),
     (LIZARD, SPOCK), (LIZARD, PAPER),
     (SPOCK, SCISSORS), (SPOCK, ROCK)]"

section \<open>Round evaluator\<close>

text \<open>
  \<open>struct PlayerScore\<close>. The player pointer is a value of an arbitrary type \<open>'p\<close>; the
  tournament controller below uses the player's position in the roster. The two
  counters are C++ \<open>int\<close>s. The evaluator starts them at zero and only ever adds one per
  duel; they are modelled as integers, and \<open>calculateScores_counters_bounded\<close> below
  shows that the evaluator never takes them above the number of entries, so no counter
  leaves the range of a 32-bit \<open>int\<close> for a round of fewer than \<open>2^31\<close> entries.
\<close>

record 'p PlayerScore =
  player :: 'p
  choice :: Choice
  wins :: int
  losses :: int

text \<open>
  The value of a 32-bit two's complement \<open>int\<close> that holds \<open>v\<close> modulo \<open>2^32\<close>: what an
  \<open>int\<close> operation of the compiled program leaves when its exact result is \<open>v\<close>.
\<close>

definition int32 :: "int \<Rightarrow> int" where
  "int32 v = (let m = v mod 4294967296 in if m < 2147483648 then m else m - 4294967296)"

text \<open>
  \<open>PlayerScore::getNetScore\<close> subtracts two \<open>int\<close>s. For counters between \<open>0\<close> and
  \<open>2^31 - 1\<close>, which is all that the evaluator produces, the difference fits and the net
  score is \<open>wins - losses\<close> (\<open>getNetScore_exact\<close> below); outside that range the
  subtraction can overflow, and the 32-bit result is what is compared.
\<close>

definition getNetScore :: "'p PlayerScore \<Rightarrow> int" where
  "getNetScore s = int32 (wins s - losses s)"

text \<open>
  The body of the inner loop of \<open>calculateScores\<close>: the duel of the entries at the
  positions \<open>i\<close> and \<open>j\<close>, with the two increments of each case in the order of the
  source. The loops only call it with \<open>i < j < scores.size()\<close>.
\<close>

definition duel :: "nat \<Rightarrow> nat \<Rightarrow> 'p PlayerScore list \<Rightarrow> 'p PlayerScore list" where
  "duel i j scores =
    (case compare (choice (scores ! i)) (choice (scores ! j)) of
       WIN \<Rightarrow>
         (let s1 = scores[i := (scores ! i)\<lparr>wins := wins (scores ! i) + 1\<rparr>]
          in s1[j := (s1 ! j)\<lparr>losses := losses (s1 ! j) + 1\<rparr>])
     | LOSE \<Rightarrow>
         (let s1 = scores[i := (scores ! i)\<lparr>losses := losses (scores ! i) + 1\<rparr>]
          in s1[j := (s1 ! j)\<lparr>wins := wins (s1 ! j) + 1\<rparr>])
     | DRAW \<Rightarrow> scores)"

text \<open>
  The inner loop \<open>for (j = i + 1; j < scores.size(); ++j)\<close>, entered at \<open>j\<close>, and the
  outer loop \<open>for (i = 0; i < scores.size(); ++i)\<close>, entered at \<open>i\<close>. Both test the
  current size of the vector on every iteration, as the source does.
\<close>

function calculateScores_inner ::
  "nat \<Rightarrow> nat \<Rightarrow> 'p PlayerScore list \<Rightarrow> 'p PlayerScore list" where
  "calculateScores_inner i j scores =
    (if j < length scores
     then calculateScores_inner i (Suc j) (duel i j scores)
     else scores)"
  by pat_completeness auto
termination
proof (relation "measure (\<lambda>(i, j, scores). length scores - j)")
  show "wf (measure (\<lambda>(i, j, scores :: 'p PlayerScore list). length scores - j))"
    by simp
next
  fix i j :: nat and scores :: "'p PlayerScore list"
  assume "j < length scores"
  moreover have "length (duel i j scores) = length scores"
    by (simp add: duel_def Let_def split: DuelResult.split)
  ultimately show "((i, Suc j, duel i j scores), (i, j, scores))
      \<in> measure (\<lambda>(i, j, scores). length scores - j)"
    by simp
qed

function calculateScores_outer :: "nat \<Rightarrow> 'p PlayerScore list \<Rightarrow> 'p PlayerScore list" where
  "calculateScores_outer i scores =
    (if i < length scores
     then calculateScores_outer (Suc i) (calculateScores_inner i (Suc i) scores)
     else scores)"
  by pat_completeness auto
termination
proof (relation "measure (\<lambda>(i, scores). length scores - i)")
  show "wf (measure (\<lambda>(i, scores :: 'p PlayerScore list). length scores - i))"
    by simp
next
  fix i :: nat and scores :: "'p PlayerScore list"
  assume "i < length scores"
  moreover have "length (calculateScores_inner i j s) = length s"
    for j and s :: "'p PlayerScore list"
  proof (induction i j s rule: calculateScores_inner.induct)
    case (1 i j s)
    have "length (duel i j s) = length s"
      by (simp add: duel_def Let_def split: DuelResult.split)
    with 1 show ?case by simp
  qed
  ultimately show "((Suc i, calculateScores_inner i (Suc i) scores), (i, scores))
      \<in> measure (\<lambda>(i, scores). length scores - i)"
    by simp
qed

text \<open>
  \<open>RoundManager::calculateScores\<close>: one entry with zero counters per choice, in the
  order of the input, then the double loop.
\<close>

definition calculateScores :: "('p \<times> Choice) list \<Rightarrow> 'p PlayerScore list" where
  "calculateScores choices =
    calculateScores_outer 0
      (map (\<lambda>(p, c). \<lparr>player = p, choice = c, wins = 0, losses = 0\<rparr>) choices)"

section \<open>Elimination policy\<close>

text \<open>
  The first loop of \<open>determineLosers\<close> over all scores, with the running minimum
  and maximum of the net score.
\<close>

primrec scanNetScores :: "'p PlayerScore list \<Rightarrow> int \<Rightarrow> int \<Rightarrow> int \<times> int" where
  "scanNetScores [] minNetScore maxNetScore = (minNetScore, maxNetScore)"
| "scanNetScores (score # rest) minNetScore maxNetScore =
     scanNetScores rest
       (if getNetScore score < minNetScore then getNetScore score else minNetScore)
       (if getNetScore score > maxNetScore then getNetScore score else maxNetScore)"

text \<open>
  The second loop: the players of the entries at the minimum, appended in the order of
  the scores.
\<close>

primrec collectLosers :: "'p PlayerScore list \<Rightarrow> int \<Rightarrow> 'p list" where
  "collectLosers [] minNetScore = []"
| "collectLosers (score # rest) minNetScore =
     (if getNetScore score = minNetScore
      then player score # collectLosers rest minNetScore
      else collectLosers rest minNetScore)"

text \<open>
  \<open>RoundManager::determineLosers\<close>. It starts with \<open>scores[0].getNetScore()\<close> and has
  no test for an empty vector, so on an empty vector the read is outside the vector.
  An empty result means that the round is replayed. The group name only selects the
  wording of the console messages, which are left out.
\<close>

definition determineLosers :: "'p PlayerScore list \<Rightarrow> failure + 'p list" where
  "determineLosers scores =
    (case scores of
       [] \<Rightarrow> Inl UndefinedBehaviour
     | first # others \<Rightarrow>
         (case scanNetScores scores (getNetScore first) (getNetScore first) of
            (minNetScore, maxNetScore) \<Rightarrow>
              if minNetScore = maxNetScore then Inr []
              else Inr (collectLosers scores minNetScore)))"

section \<open>Group partitioner\<close>

text \<open>
  \<open>static_cast<int>\<close> of a vector size, as a 32-bit two's complement value, and the
  division and remainder of C++ \<open>int\<close>s, which truncate towards zero.
\<close>

definition static_cast_int :: "nat \<Rightarrow> int" where
  "static_cast_int k =
    (let m = int k mod 4294967296 in if m < 2147483648 then m else m - 4294967296)"

definition c_div :: "int \<Rightarrow> int \<Rightarrow> int" where
  "c_div a b = sgn a * sgn b * (\<bar>a\<bar> div \<bar>b\<bar>)"

definition c_mod :: "int \<Rightarrow> int \<Rightarrow> int" where
  "c_mod a b = a - b * c_div a b"

text \<open>
  The sizes that \<open>divideIntoGroups\<close> pushes for \<open>n\<close> players. A loop
  \<open>for (i = 0; i < k; ++i) groupSizes.push_back(4)\<close> appends \<open>k\<close> fours when \<open>k\<close> is
  positive and nothing otherwise, which is \<open>replicate (nat k) 4\<close>.
\<close>

definition groupSizes :: "int \<Rightarrow> int list" where
  "groupSizes n =
    (let numFours = c_div n 4; remainder = c_mod n 4
     in if remainder = 0 then replicate (nat numFours) 4
        else if remainder = 1 then replicate (nat (numFours - 1)) 4 @ [3, 2]
        else if remainder = 2 then replicate (nat numFours) 4 @ [2]
        else replicate (nat numFours) 4 @ [3])"

text \<open>
  The loop that fills one group, \<open>for (i = 0; i < size && idx < shuffled.size(); ++i)\<close>,
  entered at \<open>i\<close>; it returns the group and the advanced index. (\<open>sz\<close> and \<open>grp\<close> stand
  for the source's \<open>size\<close> and \<open>group\<close>.)
\<close>

function fillGroup :: "'a list \<Rightarrow> int \<Rightarrow> int \<Rightarrow> nat \<Rightarrow> 'a list \<Rightarrow> 'a list \<times> nat" where
  "fillGroup shuffled sz i idx grp =
    (if i < sz \<and> idx < length shuffled
     then fillGroup shuffled sz (i + 1) (Suc idx) (grp @ [shuffled ! idx])
     else (grp, idx))"
  by pat_completeness auto
termination
  by (relation "measure (\<lambda>(shuffled, sz, i, idx, grp). length shuffled - idx)") auto

fun makeGroups :: "'a list \<Rightarrow> int list \<Rightarrow> nat \<Rightarrow> 'a list list" where
  "makeGroups shuffled [] idx = []"
| "makeGroups shuffled (sz # rest) idx =
    (case fillGroup shuffled sz 0 idx [] of
       (grp, idx') \<Rightarrow> grp # makeGroups shuffled rest idx')"

text \<open>
  \<open>GroupDivider::divideIntoGroups\<close>. \<open>std::shuffle\<close> with the divider's random generator
  is the parameter \<open>shuffle\<close>; the theorems assume of it only that it permutes its
  argument. (\<open>members\<close> stands for the source's parameter \<open>players\<close>.)
\<close>

definition divideIntoGroups :: "('a list \<Rightarrow> 'a list) \<Rightarrow> 'a list \<Rightarrow> 'a list list" where
  "divideIntoGroups shuffle members =
    (let shuffled = shuffle members;
         n = static_cast_int (length shuffled)
     in makeGroups shuffled (groupSizes n) 0)"

text \<open>
  The groups that \<open>Game::playRound\<close> plays: the groups of the divider for more than
  five active players, and all active players together otherwise.
\<close>

definition roundGroups :: "('a list \<Rightarrow> 'a list) \<Rightarrow> 'a list \<Rightarrow> 'a list list" where
  "roundGroups shuffle activePlayers =
    (if length activePlayers > 5 then divideIntoGroups shuffle activePlayers
     else [activePlayers])"

section \<open>Tournament controller\<close>

text \<open>
  \<open>class Player\<close> with the one bit that separates its two subclasses. A \<open>Player*\<close> is
  the position of the player in \<open>Game::players_\<close>, which is filled once by \<open>setup\<close> and
  never resized. (Isabelle has no identifiers that end in an underscore, so the members
  \<open>name_\<close>, \<open>choiceHistory_\<close> and \<open>isActive_\<close> lose theirs.)
\<close>

record Player =
  name :: string
  isHuman :: bool
  choiceHistory :: "Choice list"
  isActive :: bool

text \<open>The constructor: an empty history and \<open>isActive_ = true\<close>.\<close>

definition newPlayer :: "string \<Rightarrow> bool \<Rightarrow> Player" where
  "newPlayer nm human =
     \<lparr>name = nm, isHuman = human, choiceHistory = [], isActive = True\<rparr>"

definition setActive :: "bool \<Rightarrow> Player \<Rightarrow> Player" where
  "setActive active p = p\<lparr>isActive := active\<rparr>"

definition recordChoice :: "Choice \<Rightarrow> Player \<Rightarrow> Player" where
  "recordChoice c p = p\<lparr>choiceHistory := choiceHistory p @ [c]\<rparr>"

definition getActivePlayers :: "Player list \<Rightarrow> nat list" where
  "getActivePlayers roster = filter (\<lambda>i. isActive (roster ! i)) [0..<length roster]"

text \<open>
  \<open>RoundManager::collectChoices\<close>. The choices come from outside the engine (console
  input, or a strategy with its own random generator): \<open>made\<close> lists what the calls of
  \<open>makeChoice\<close> return, in the order of the calls, which is the humans of the group
  first and its computers second. Every call records its choice in the history of the
  player. The returned vector has the computers first and the humans after them.
\<close>

definition collectChoices ::
  "Player list \<Rightarrow> nat list \<Rightarrow> Choice list \<Rightarrow> Player list \<times> (nat \<times> Choice) list" where
  "collectChoices roster members made =
    (let humans = filter (\<lambda>p. isHuman (roster ! p)) members;
         computers = filter (\<lambda>p. \<not> isHuman (roster ! p)) members;
         humanChoices = zip humans (take (length humans) made);
         computerChoices = zip computers (drop (length humans) made);
         roster' = fold (\<lambda>(p, c) r. r[p := recordChoice c (r ! p)])
                     (humanChoices @ computerChoices) roster
     in (roster', computerChoices @ humanChoices))"

text \<open>
  \<open>RoundManager::executeRound\<close> without its console output: collect the choices,
  compute the scores, determine the losers.
\<close>

definition executeRound ::
  "Player list \<Rightarrow> nat list \<Rightarrow> Choice list \<Rightarrow> Player list \<times> (failure + nat list)" where
  "executeRound roster members made =
    (case collectChoices roster members made of
       (roster', choices) \<Rightarrow> (roster', determineLosers (calculateScores choices)))"

text \<open>The loop \<open>for (auto* loser : losers) loser->setActive(false)\<close>.\<close>

definition deactivate :: "nat list \<Rightarrow> Player list \<Rightarrow> Player list" where
  "deactivate losers roster =
     fold (\<lambda>loser r. r[loser := setActive False (r ! loser)]) losers roster"

text \<open>
  The state of \<open>Game::run\<close>: the roster, and the groups of the current round that are
  still to be resolved (none between two rounds). The round number is only printed and
  is left out.
\<close>

record Game =
  players :: "Player list"
  pending :: "nat list list"

text \<open>
  The state after \<open>Game::setup\<close>, which creates one player per entrant, given here by
  name and kind.
\<close>

definition game_setup :: "(string \<times> bool) list \<Rightarrow> Game" where
  "game_setup entrants =
     \<lparr>players = map (\<lambda>(nm, human). newPlayer nm human) entrants, pending = []\<rparr>"

text \<open>
  One step of \<open>run\<close>. \<open>round_start\<close> is an iteration of its loop entering \<open>playRound\<close>,
  which fixes the groups of the round from some shuffle of the active players. The other
  two rules are one pass of the replay loop (in \<open>playGroupRound\<close>, and in the second
  branch of \<open>playRound\<close>, which is the same loop) for the first unresolved group: an
  empty loser list leaves the group to be played again, a non-empty one deactivates the
  losers and finishes the group. There is no rule for a round whose elimination step
  reads outside its vector; \<open>reachable_groups\<close> below shows that no run gets there.
  A replay loop that never ends is a run that never leaves \<open>replay\<close>.
\<close>

inductive step :: "Game \<Rightarrow> Game \<Rightarrow> bool" where
  round_start:
    "pending g = [] \<Longrightarrow> length (getActivePlayers (players g)) > 1 \<Longrightarrow>
     mset shuffled = mset (getActivePlayers (players g)) \<Longrightarrow>
     step g (g\<lparr>pending :=
                 roundGroups (\<lambda>activePlayers. shuffled) (getActivePlayers (players g))\<rparr>)"
| replay:
    "pending g = grp # rest \<Longrightarrow> length made = length grp \<Longrightarrow>
     executeRound (players g) grp made = (roster', Inr []) \<Longrightarrow>
     step g (g\<lparr>players := roster'\<rparr>)"
| eliminate:
    "pending g = grp # rest \<Longrightarrow> length made = length grp \<Longrightarrow>
     executeRound (players g) grp made = (roster', Inr losers) \<Longrightarrow> losers \<noteq> [] \<Longrightarrow>
     step g (g\<lparr>players := deactivate losers roster', pending := rest\<rparr>)"

section \<open>Notions used in the proofs\<close>

text \<open>The two totals of a score list.\<close>

definition totalWins :: "'p PlayerScore list \<Rightarrow> int" where
  "totalWins scores = sum_list (map wins scores)"

definition totalLosses :: "'p PlayerScore list \<Rightarrow> int" where
  "totalLosses scores = sum_list (map losses scores)"

text \<open>
  How often the choice \<open>c\<close> gets the result \<open>r\<close> against the choices \<open>cs\<close>; what a duel
  against an earlier entry with the choice \<open>c\<close> does to a later entry \<open>t\<close>; an entry after
  its duels with the entries behind it; and an entry after its duels with all
  choices \<open>cs\<close> of the round.
\<close>

definition countResult :: "DuelResult \<Rightarrow> Choice \<Rightarrow> Choice list \<Rightarrow> int" where
  "countResult r c cs = int (length (filter (\<lambda>d. compare c d = r) cs))"

definition versus :: "Choice \<Rightarrow> 'p PlayerScore \<Rightarrow> 'p PlayerScore" where
  "versus c t =
    (case compare c (choice t) of
       WIN \<Rightarrow> t\<lparr>losses := losses t + 1\<rparr>
     | LOSE \<Rightarrow> t\<lparr>wins := wins t + 1\<rparr>
     | DRAW \<Rightarrow> t)"

definition headAfter :: "'p PlayerScore \<Rightarrow> 'p PlayerScore list \<Rightarrow> 'p PlayerScore" where
  "headAfter x xs =
     x\<lparr>wins := wins x + countResult WIN (choice x) (map choice xs),
       losses := losses x + countResult LOSE (choice x) (map choice xs)\<rparr>"

definition tally :: "Choice list \<Rightarrow> 'p PlayerScore \<Rightarrow> 'p PlayerScore" where
  "tally cs t = t\<lparr>wins := wins t + countResult WIN (choice t) cs,
                  losses := losses t + countResult LOSE (choice t) cs\<rparr>"

text \<open>
  What holds of the unresolved groups in every state of a run: each has at least two
  members, and every member is a position of the roster.
\<close>

definition groups_ok :: "Game \<Rightarrow> bool" where
  "groups_ok g \<longleftrightarrow>
     (\<forall>grp\<in>set (pending g). 2 \<le> length grp \<and> (\<forall>p\<in>set grp. p < length (players g)))"

section \<open>Properties of the rule table\<close>

lemma compare_same [simp]: "compare a a = DRAW"
  by (simp add: compare_def)

lemma compare_draw_iff: "compare a b = DRAW \<longleftrightarrow> a = b"
  by (cases a; cases b; simp add: compare_def getWinsAgainst_def)

lemma compare_flip_win: "compare a b = WIN \<longleftrightarrow> compare b a = LOSE"
  by (cases a; cases b; simp add: compare_def getWinsAgainst_def)

lemma compare_flip_lose: "compare a b = LOSE \<longleftrightarrow> compare b a = WIN"
  by (simp add: compare_flip_win)

text \<open>
  Claim C1. For every ordered pair of choices, \<open>compare\<close> returns Draw exactly when the
  two choices are equal, Win exactly when the pair is one of the stated winning pairs,
  and Lose for every other ordered pair; the stated winning pairs are ten different
  pairs.
\<close>

theorem compare_rule_table:
  "(compare a b = DRAW \<longleftrightarrow> a = b)
   \<and> (compare a b = WIN \<longleftrightarrow> (a, b) \<in> set stated_winning_pairs)
   \<and> (compare a b = LOSE \<longleftrightarrow> a \<noteq> b \<and> (a, b) \<notin> set stated_winning_pairs)
   \<and> length stated_winning_pairs = 10 \<and> distinct stated_winning_pairs"
  by (cases a; cases b;
      simp add: compare_def getWinsAgainst_def stated_winning_pairs_def)

theorem compare_rule_table_witness:
  "compare SPOCK SPOCK = DRAW \<and> compare LIZARD PAPER = WIN \<and> compare ROCK SPOCK = LOSE"
  using compare_rule_table [of SPOCK SPOCK] compare_rule_table [of LIZARD PAPER]
    compare_rule_table [of ROCK SPOCK]
  by (simp add: stated_winning_pairs_def)

text \<open>
  Claim C4. For two distinct choices the two directions of \<open>compare\<close> are opposite:
  one is Win and the other is Lose. So they are never both Win and never both Draw.
\<close>

theorem compare_opposite:
  "a \<noteq> b \<Longrightarrow>
     (compare a b = WIN \<and> compare b a = LOSE) \<or> (compare a b = LOSE \<and> compare b a = WIN)"
  by (cases a; cases b; simp add: compare_def getWinsAgainst_def)

theorem compare_opposite_witness:
  "ROCK \<noteq> PAPER \<and> compare ROCK PAPER = LOSE \<and> compare PAPER ROCK = WIN"
proof -
  have d: "ROCK \<noteq> PAPER" by simp
  have l: "compare ROCK PAPER \<noteq> WIN" by (simp add: compare_def getWinsAgainst_def)
  from compare_opposite [OF d] l show ?thesis by simp
qed

section \<open>Properties of the round evaluator\<close>

declare calculateScores_inner.simps [simp del] calculateScores_outer.simps [simp del]

lemma length_duel [simp]: "length (duel i j scores) = length scores"
  by (simp add: duel_def Let_def split: DuelResult.split)

lemma length_calculateScores_inner [simp]:
  "length (calculateScores_inner i j scores) = length scores"
proof (induction i j scores rule: calculateScores_inner.induct)
  case (1 i j scores)
  then show ?case
    by (subst calculateScores_inner.simps) simp
qed

lemma length_calculateScores_outer [simp]:
  "length (calculateScores_outer i scores) = length scores"
proof (induction i scores rule: calculateScores_outer.induct)
  case (1 i scores)
  then show ?case
    by (subst calculateScores_outer.simps) simp
qed

subsection \<open>Every duel adds one win and one loss, or nothing\<close>

lemma sum_list_map_update:
  fixes f :: "'a \<Rightarrow> int"
  shows "k < length xs \<Longrightarrow>
    sum_list (map f (xs[k := x])) = sum_list (map f xs) - f (xs ! k) + f x"
  by (induction xs arbitrary: k) (auto split: nat.splits)

lemma duel_balance:
  assumes "i < length scores" "j < length scores" "i \<noteq> j"
  shows "totalWins (duel i j scores) - totalLosses (duel i j scores)
       = totalWins scores - totalLosses scores"
  using assms
  by (cases "compare (choice (scores ! i)) (choice (scores ! j))")
     (simp_all add: duel_def Let_def totalWins_def totalLosses_def sum_list_map_update)

lemma inner_balance:
  "i < j \<Longrightarrow>
   totalWins (calculateScores_inner i j scores) - totalLosses (calculateScores_inner i j scores)
     = totalWins scores - totalLosses scores"
proof (induction i j scores rule: calculateScores_inner.induct)
  case (1 i j scores)
  show ?case
  proof (cases "j < length scores")
    case True
    with 1 have "totalWins (calculateScores_inner i (Suc j) (duel i j scores))
        - totalLosses (calculateScores_inner i (Suc j) (duel i j scores))
        = totalWins (duel i j scores) - totalLosses (duel i j scores)"
      by simp
    also have "\<dots> = totalWins scores - totalLosses scores"
      using True "1.prems" by (intro duel_balance) simp_all
    finally show ?thesis
      using True by (subst (1 2) calculateScores_inner.simps) simp
  next
    case False
    then show ?thesis by (subst (1 2) calculateScores_inner.simps) simp
  qed
qed

lemma outer_balance:
  "totalWins (calculateScores_outer i scores) - totalLosses (calculateScores_outer i scores)
     = totalWins scores - totalLosses scores"
proof (induction i scores rule: calculateScores_outer.induct)
  case (1 i scores)
  show ?case
  proof (cases "i < length scores")
    case True
    with 1 show ?thesis
      by (subst (1 2) calculateScores_outer.simps) (simp add: inner_balance)
  next
    case False
    then show ?thesis by (subst (1 2) calculateScores_outer.simps) simp
  qed
qed

lemma initial_totals:
  "totalWins (map (\<lambda>(p, c). \<lparr>player = p, choice = c, wins = 0, losses = 0\<rparr>) choices) = 0"
  "totalLosses (map (\<lambda>(p, c). \<lparr>player = p, choice = c, wins = 0, losses = 0\<rparr>) choices) = 0"
  by (induction choices) (auto simp: totalWins_def totalLosses_def)

text \<open>
  Claim C5. In the score list that the round evaluator computes for any list of
  (player, choice) entries, the win counts of all entries and the loss counts of all
  entries have the same sum.
\<close>

theorem calculateScores_wins_eq_losses:
  "sum_list (map wins (calculateScores choices)) = sum_list (map losses (calculateScores choices))"
  using outer_balance
    [of 0 "map (\<lambda>(p, c). \<lparr>player = p, choice = c, wins = 0, losses = 0\<rparr>) choices"]
  by (simp add: calculateScores_def initial_totals flip: totalWins_def totalLosses_def)

subsection \<open>The double loop in closed form\<close>

lemma countResult_Nil [simp]: "countResult r c [] = 0"
  by (simp add: countResult_def)

lemma countResult_Cons:
  "countResult r c (d # cs) = (if compare c d = r then 1 else 0) + countResult r c cs"
  by (simp add: countResult_def)

lemma choice_versus [simp]: "choice (versus c t) = choice t"
  by (simp add: versus_def split: DuelResult.split)

lemma duel_Suc_Suc: "duel (Suc i) (Suc j) (x # xs) = x # duel i j xs"
  by (simp add: duel_def Let_def split: DuelResult.split)

text \<open>Positions behind the first entry: the loops never touch the first entry.\<close>

lemma inner_Suc_Suc:
  "calculateScores_inner (Suc i) (Suc j) (x # xs) = x # calculateScores_inner i j xs"
proof (induction i j xs rule: calculateScores_inner.induct)
  case (1 i j xs)
  show ?case
  proof (cases "j < length xs")
    case True
    with 1 show ?thesis
      by (subst calculateScores_inner.simps, subst (2) calculateScores_inner.simps)
         (simp add: duel_Suc_Suc)
  next
    case False
    then show ?thesis
      by (subst calculateScores_inner.simps, subst (2) calculateScores_inner.simps) simp
  qed
qed

lemma outer_Suc:
  "calculateScores_outer (Suc i) (x # xs) = x # calculateScores_outer i xs"
proof (induction i xs rule: calculateScores_outer.induct)
  case (1 i xs)
  show ?case
  proof (cases "i < length xs")
    case True
    with 1 show ?thesis
      by (subst calculateScores_outer.simps, subst (2) calculateScores_outer.simps)
         (simp add: inner_Suc_Suc)
  next
    case False
    then show ?thesis
      by (subst calculateScores_outer.simps, subst (2) calculateScores_outer.simps) simp
  qed
qed

lemma duel_0_Suc:
  "j < length xs \<Longrightarrow>
   duel 0 (Suc j) (x # xs) = headAfter x [xs ! j] # xs[j := versus (choice x) (xs ! j)]"
  by (cases "compare (choice x) (choice (xs ! j))")
     (simp_all add: duel_def Let_def headAfter_def versus_def countResult_Cons)

lemma headAfter_Nil [simp]: "headAfter x [] = x"
  by (simp add: headAfter_def)

lemma headAfter_Cons: "headAfter (headAfter x [y]) ys = headAfter x (y # ys)"
  by (simp add: headAfter_def countResult_Cons)

lemma choice_headAfter [simp]: "choice (headAfter x xs) = choice x"
  by (simp add: headAfter_def)

text \<open>The first pass of the outer loop, entered at any position of the inner loop.\<close>

lemma inner_0:
  "j \<le> length xs \<Longrightarrow>
   calculateScores_inner 0 (Suc j) (x # xs)
     = headAfter x (drop j xs) # take j xs @ map (versus (choice x)) (drop j xs)"
proof (induction "length xs - j" arbitrary: x xs j)
  case 0
  then have "j = length xs" by simp
  then show ?case
    by (subst calculateScores_inner.simps) simp
next
  case (Suc n)
  then have j: "j < length xs" by simp
  let ?v = "versus (choice x) (xs ! j)"
  let ?ys = "xs[j := ?v]"
  have n: "n = length ?ys - Suc j" using Suc.hyps(2) by simp
  have le: "Suc j \<le> length ?ys" using j by simp
  have "calculateScores_inner 0 (Suc j) (x # xs)
      = calculateScores_inner 0 (Suc (Suc j)) (headAfter x [xs ! j] # ?ys)"
    using j by (subst calculateScores_inner.simps) (simp add: duel_0_Suc)
  also have "\<dots> = headAfter (headAfter x [xs ! j]) (drop (Suc j) ?ys)
      # take (Suc j) ?ys @ map (versus (choice (headAfter x [xs ! j]))) (drop (Suc j) ?ys)"
    by (rule Suc.hyps(1) [OF n le])
  also have "\<dots> = headAfter x (xs ! j # drop (Suc j) xs)
      # (take j xs @ [?v]) @ map (versus (choice x)) (drop (Suc j) xs)"
    using j by (simp add: headAfter_Cons take_Suc_conv_app_nth)
  also have "\<dots> = headAfter x (drop j xs) # take j xs @ map (versus (choice x)) (drop j xs)"
    using j by (simp flip: Cons_nth_drop_Suc)
  finally show ?case .
qed

lemma outer_0_Cons:
  "calculateScores_outer 0 (x # xs)
     = headAfter x xs # calculateScores_outer 0 (map (versus (choice x)) xs)"
proof -
  have "calculateScores_outer 0 (x # xs)
      = calculateScores_outer (Suc 0) (calculateScores_inner 0 (Suc 0) (x # xs))"
    by (subst calculateScores_outer.simps) simp
  also have "\<dots> = calculateScores_outer (Suc 0) (headAfter x xs # map (versus (choice x)) xs)"
    using inner_0 [of 0 xs x] by simp
  finally show ?thesis by (simp add: outer_Suc)
qed

lemma outer_0_Nil [simp]: "calculateScores_outer 0 [] = []"
  by (subst calculateScores_outer.simps) simp

lemma tally_versus: "tally cs (versus c t) = tally (c # cs) t"
proof (cases "compare c (choice t)")
  case WIN
  then have "compare (choice t) c = LOSE" by (simp flip: compare_flip_win)
  with WIN show ?thesis
    by (simp add: tally_def versus_def countResult_Cons)
next
  case LOSE
  then have "compare (choice t) c = WIN" by (simp add: compare_flip_lose)
  with LOSE show ?thesis
    by (simp add: tally_def versus_def countResult_Cons)
next
  case DRAW
  then have "compare (choice t) c = DRAW" by (simp add: compare_draw_iff)
  with DRAW show ?thesis
    by (simp add: tally_def versus_def countResult_Cons)
qed

lemma tally_head: "headAfter x xs = tally (choice x # map choice xs) x"
  by (simp add: headAfter_def tally_def countResult_Cons)

lemma outer_closed:
  "calculateScores_outer 0 scores = map (tally (map choice scores)) scores"
proof (induction "length scores" arbitrary: scores)
  case 0
  then show ?case by simp
next
  case (Suc n)
  then obtain x xs where s: "scores = x # xs" and n: "n = length xs"
    by (cases scores) auto
  let ?ys = "map (versus (choice x)) xs"
  have "calculateScores_outer 0 ?ys = map (tally (map choice ?ys)) ?ys"
    by (rule Suc.hyps(1)) (simp add: n)
  also have "\<dots> = map (tally (choice x # map choice xs)) xs"
    by (simp add: tally_versus o_def)
  finally show ?case
    by (simp add: s outer_0_Cons tally_head)
qed

text \<open>
  The result of the evaluator: every entry counts the choices of the round that its
  own choice beats, and those that beat it.
\<close>

lemma calculateScores_closed:
  "calculateScores choices =
     map (\<lambda>(p, c). \<lparr>player = p, choice = c,
                     wins = countResult WIN c (map snd choices),
                     losses = countResult LOSE c (map snd choices)\<rparr>) choices"
proof -
  let ?init = "map (\<lambda>(p, c). \<lparr>player = p, choice = c, wins = 0, losses = 0\<rparr>) choices"
  have c: "map choice ?init = map snd choices"
    by (induction choices) auto
  show ?thesis
    unfolding calculateScores_def outer_closed c
    by (simp add: tally_def case_prod_unfold)
qed

lemma countResult_bounds: "0 \<le> countResult r c cs \<and> countResult r c cs \<le> int (length cs)"
  by (simp add: countResult_def)

lemma calculateScores_counters_bounded:
  assumes "s \<in> set (calculateScores choices)"
  shows "0 \<le> wins s \<and> wins s \<le> int (length choices)
       \<and> 0 \<le> losses s \<and> losses s \<le> int (length choices)"
proof -
  from assms obtain p c where
    "s = \<lparr>player = p, choice = c,
          wins = countResult WIN c (map snd choices),
          losses = countResult LOSE c (map snd choices)\<rparr>"
    by (auto simp: calculateScores_closed)
  then show ?thesis
    using countResult_bounds [of WIN c "map snd choices"]
      countResult_bounds [of LOSE c "map snd choices"]
    by simp
qed

theorem calculateScores_wins_eq_losses_witness:
  "sum_list (map wins (calculateScores [(4::nat, ROCK), (5, ROCK), (6, PAPER)])) = 2
   \<and> sum_list (map losses (calculateScores [(4::nat, ROCK), (5, ROCK), (6, PAPER)])) = 2"
proof -
  have "sum_list (map losses (calculateScores [(4::nat, ROCK), (5, ROCK), (6, PAPER)])) = 2"
    by (simp add: calculateScores_closed countResult_def compare_def getWinsAgainst_def)
  with calculateScores_wins_eq_losses [of "[(4::nat, ROCK), (5, ROCK), (6, PAPER)]"]
  show ?thesis by simp
qed

subsection \<open>The order of the entries\<close>

lemma countResult_mset:
  "mset cs' = mset cs \<Longrightarrow> countResult r c cs' = countResult r c cs"
proof -
  assume "mset cs' = mset cs"
  then have "mset (filter (\<lambda>d. compare c d = r) cs') = mset (filter (\<lambda>d. compare c d = r) cs)"
    by simp
  then have "length (filter (\<lambda>d. compare c d = r) cs') = length (filter (\<lambda>d. compare c d = r) cs)"
    by (metis size_mset)
  then show ?thesis by (simp add: countResult_def)
qed

lemma find_distinct_key:
  assumes "distinct (map f xs)" and "set ys = set xs"
  shows "find (\<lambda>s. f s = p) ys = find (\<lambda>s. f s = p) xs"
proof (cases "find (\<lambda>s. f s = p) xs")
  case None
  then have "\<forall>s\<in>set ys. f s \<noteq> p" using assms(2) by (auto simp: find_None_iff)
  then have "find (\<lambda>s. f s = p) ys = None" by (auto simp: find_None_iff)
  with None show ?thesis by simp
next
  case (Some x)
  then have x: "x \<in> set xs" "f x = p"
    by (auto simp: find_Some_iff in_set_conv_nth)
  from assms(1) have inj: "inj_on f (set xs)" by (simp add: distinct_map)
  obtain y where y: "find (\<lambda>s. f s = p) ys = Some y"
    using x assms(2) by (cases "find (\<lambda>s. f s = p) ys") (auto simp: find_None_iff)
  then have "y \<in> set ys" "f y = p"
    by (auto simp: find_Some_iff in_set_conv_nth)
  with x inj assms(2) have "y = x" by (auto dest: inj_onD)
  with y Some show ?thesis by simp
qed

text \<open>
  Claim C6. For every list of (player, choice) entries and every permutation of it, the
  round evaluator produces the same score entries (player, choice, wins, losses, and
  with them the net score), each as often. When no player occurs twice, looking a
  player up in either result gives the same entry.
\<close>

theorem calculateScores_order_independent:
  assumes "mset choices' = mset choices"
  shows "mset (calculateScores choices') = mset (calculateScores choices)
       \<and> (distinct (map fst choices) \<longrightarrow>
            (\<forall>p. find (\<lambda>s. player s = p) (calculateScores choices')
               = find (\<lambda>s. player s = p) (calculateScores choices)))"
proof -
  have "mset (map snd choices') = mset (map snd choices)"
    using assms by (metis mset_map)
  then have cnt: "countResult r c (map snd choices') = countResult r c (map snd choices)" for r c
    by (rule countResult_mset)
  have m: "mset (calculateScores choices') = mset (calculateScores choices)"
    by (simp add: calculateScores_closed cnt assms)
  have "find (\<lambda>s. player s = p) (calculateScores choices')
      = find (\<lambda>s. player s = p) (calculateScores choices)"
    if d: "distinct (map fst choices)" for p
  proof (rule find_distinct_key)
    have "map player (calculateScores choices) = map fst choices"
      by (simp add: calculateScores_closed case_prod_unfold o_def)
    with d show "distinct (map player (calculateScores choices))" by simp
    from m show "set (calculateScores choices') = set (calculateScores choices)"
      by (metis set_mset_mset)
  qed
  with m show ?thesis by blast
qed

theorem calculateScores_order_independent_witness:
  "mset [(6::nat, SPOCK), (4, ROCK), (5, PAPER)] = mset [(4, ROCK), (5, PAPER), (6, SPOCK)]
   \<and> distinct (map fst [(4::nat, ROCK), (5, PAPER), (6, SPOCK)])
   \<and> mset (calculateScores [(6::nat, SPOCK), (4, ROCK), (5, PAPER)])
       = mset (calculateScores [(4, ROCK), (5, PAPER), (6, SPOCK)])
   \<and> find (\<lambda>s. player s = 5) (calculateScores [(6::nat, SPOCK), (4, ROCK), (5, PAPER)])
       = Some \<lparr>player = 5, choice = PAPER, wins = 2, losses = 0\<rparr>"
proof -
  have p: "mset [(6::nat, SPOCK), (4, ROCK), (5, PAPER)] = mset [(4, ROCK), (5, PAPER), (6, SPOCK)]"
    by simp
  have d: "distinct (map fst [(4::nat, ROCK), (5, PAPER), (6, SPOCK)])"
    by simp
  have f: "find (\<lambda>s. player s = 5) (calculateScores [(4::nat, ROCK), (5, PAPER), (6, SPOCK)])
      = Some \<lparr>player = 5, choice = PAPER, wins = 2, losses = 0\<rparr>"
    by (simp add: calculateScores_closed countResult_def compare_def getWinsAgainst_def)
  from calculateScores_order_independent [OF p] p d f show ?thesis
    by simp
qed

section \<open>Properties of the elimination policy\<close>

lemma scanNetScores_eq:
  "scanNetScores scores a b
     = (Min (insert a (getNetScore ` set scores)), Max (insert b (getNetScore ` set scores)))"
proof (induction scores arbitrary: a b)
  case Nil
  then show ?case by simp
next
  case (Cons s scores)
  have "Min (insert (if getNetScore s < a then getNetScore s else a) (getNetScore ` set scores))
      = Min (insert a (insert (getNetScore s) (getNetScore ` set scores)))"
    by (cases "set scores = {}") (auto simp: min_def)
  moreover have
    "Max (insert (if b < getNetScore s then getNetScore s else b) (getNetScore ` set scores))
      = Max (insert b (insert (getNetScore s) (getNetScore ` set scores)))"
    by (cases "set scores = {}") (auto simp: max_def)
  ultimately show ?case by (simp add: Cons.IH)
qed

lemma collectLosers_eq:
  "collectLosers scores m = map player (filter (\<lambda>s. getNetScore s = m) scores)"
  by (induction scores) simp_all

lemma determineLosers_nonempty:
  assumes "scores \<noteq> []"
  shows "determineLosers scores =
     (if Min (getNetScore ` set scores) = Max (getNetScore ` set scores) then Inr []
      else Inr (map player
             (filter (\<lambda>s. getNetScore s = Min (getNetScore ` set scores)) scores)))"
proof -
  from assms obtain first others where s: "scores = first # others"
    by (cases scores) auto
  have "insert (getNetScore first) (getNetScore ` set scores) = getNetScore ` set scores"
    by (auto simp: s)
  then show ?thesis
    by (simp add: determineLosers_def s scanNetScores_eq collectLosers_eq
          del: scanNetScores.simps)
qed

lemma determineLosers_returns: "scores \<noteq> [] \<Longrightarrow> \<exists>losers. determineLosers scores = Inr losers"
  by (simp add: determineLosers_nonempty)

lemma Min_eq_Max_iff:
  fixes A :: "int set"
  assumes "finite A" "A \<noteq> {}"
  shows "Min A = Max A \<longleftrightarrow> (\<forall>a\<in>A. \<forall>b\<in>A. a = b)"
proof
  assume eq: "Min A = Max A"
  show "\<forall>a\<in>A. \<forall>b\<in>A. a = b"
  proof (intro ballI)
    fix a b assume "a \<in> A" "b \<in> A"
    with assms have "Min A \<le> a" "a \<le> Max A" "Min A \<le> b" "b \<le> Max A" by simp_all
    with eq show "a = b" by simp
  qed
next
  assume all: "\<forall>a\<in>A. \<forall>b\<in>A. a = b"
  from assms have "Min A \<in> A" "Max A \<in> A" by simp_all
  with all show "Min A = Max A" by blast
qed

lemma int32_exact:
  assumes "- 2147483648 \<le> v" and "v \<le> 2147483647"
  shows "int32 v = v"
proof (cases "0 \<le> v")
  case True
  with assms(2) have "v mod 4294967296 = v" by simp
  with assms(2) show ?thesis by (simp add: int32_def)
next
  case False
  have "v mod 4294967296 = (v + 4294967296) mod 4294967296" by simp
  also have "\<dots> = v + 4294967296"
    using assms(1) False by (intro mod_pos_pos_trivial) simp_all
  finally show ?thesis using assms(1) by (simp add: int32_def Let_def)
qed

text \<open>Counters that a 32-bit \<open>int\<close> holds without a sign: from \<open>0\<close> to \<open>2^31 - 1\<close>.\<close>

lemma getNetScore_exact:
  assumes "0 \<le> wins s" "wins s \<le> 2147483647" "0 \<le> losses s" "losses s \<le> 2147483647"
  shows "getNetScore s = wins s - losses s"
  unfolding getNetScore_def using assms by (intro int32_exact) simp_all

lemma calculateScores_in_range:
  assumes "length choices \<le> 2147483647" and "s \<in> set (calculateScores choices)"
  shows "0 \<le> wins s \<and> wins s \<le> 2147483647 \<and> 0 \<le> losses s \<and> losses s \<le> 2147483647"
  using calculateScores_counters_bounded [OF assms(2)] assms(1) by simp

text \<open>
  Claim C2. For every non-empty score list whose counters are between \<open>0\<close> and
  \<open>2^31 - 1\<close> (as they are in every score list that the evaluator hands to the
  elimination step), the net score of every entry is its wins minus its losses, and
  with \<open>minNet\<close> and \<open>maxNet\<close> the least and the greatest net score in the list:
  \<open>minNet = maxNet\<close> says that all entries have the same net score, and then the
  elimination step returns the empty loser list (replay); otherwise it returns exactly
  the players of the entries whose net score is \<open>minNet\<close>, in the order of the list,
  there is at least one of them, and some entry with a strictly greater net score is
  not among them (nor is its player, when no player occurs twice in the list).
\<close>

theorem determineLosers_policy:
  assumes "scores \<noteq> []"
    and "\<forall>s\<in>set scores. 0 \<le> wins s \<and> wins s \<le> 2147483647
                          \<and> 0 \<le> losses s \<and> losses s \<le> 2147483647"
  shows "let minNet = Min (getNetScore ` set scores);
             maxNet = Max (getNetScore ` set scores);
             lowest = filter (\<lambda>s. getNetScore s = minNet) scores
         in (\<forall>s\<in>set scores. getNetScore s = wins s - losses s)
          \<and> (minNet = maxNet \<longleftrightarrow>
               (\<forall>s\<in>set scores. \<forall>t\<in>set scores. getNetScore s = getNetScore t))
          \<and> (minNet = maxNet \<longrightarrow> determineLosers scores = Inr [])
          \<and> (minNet \<noteq> maxNet \<longrightarrow>
               determineLosers scores = Inr (map player lowest)
             \<and> lowest \<noteq> []
             \<and> (\<exists>s\<in>set scores. minNet < getNetScore s \<and> s \<notin> set lowest)
             \<and> (distinct (map player scores) \<longrightarrow>
                  (\<exists>s\<in>set scores. minNet < getNetScore s
                     \<and> player s \<notin> player ` set lowest)))"
proof -
  let ?A = "getNetScore ` set scores"
  let ?low = "filter (\<lambda>s. getNetScore s = Min ?A) scores"
  have ne0: "scores \<noteq> []" by (rule assms(1))
  have fin: "finite ?A" and ne: "?A \<noteq> {}" using ne0 by simp_all
  have x: "\<forall>s\<in>set scores. getNetScore s = wins s - losses s"
    using assms(2) by (auto intro: getNetScore_exact)
  have a: "Min ?A = Max ?A \<longleftrightarrow>
      (\<forall>s\<in>set scores. \<forall>t\<in>set scores. getNetScore s = getNetScore t)"
    using Min_eq_Max_iff [OF fin ne] by auto
  have b: "Min ?A = Max ?A \<Longrightarrow> determineLosers scores = Inr []"
    using determineLosers_nonempty [OF ne0] by simp
  have c: "Min ?A \<noteq> Max ?A \<Longrightarrow> determineLosers scores = Inr (map player ?low)"
    using determineLosers_nonempty [OF ne0] by simp
  have d: "?low \<noteq> []"
  proof -
    from fin ne have "Min ?A \<in> ?A" by (rule Min_in)
    then obtain s where "s \<in> set scores" "getNetScore s = Min ?A" by auto
    then have "s \<in> set ?low" by simp
    then show ?thesis by (metis empty_iff empty_set)
  qed
  have e: "\<exists>s\<in>set scores. Min ?A < getNetScore s \<and> s \<notin> set ?low
              \<and> (distinct (map player scores) \<longrightarrow> player s \<notin> player ` set ?low)"
    if neq: "Min ?A \<noteq> Max ?A"
  proof -
    from fin ne have "Max ?A \<in> ?A" by (rule Max_in)
    then obtain s where s: "s \<in> set scores" "getNetScore s = Max ?A" by auto
    from fin ne have "Min ?A \<le> Max ?A" by simp
    with neq s have lt: "Min ?A < getNetScore s" by simp
    then have notin: "s \<notin> set ?low" by simp
    have "player s \<notin> player ` set ?low" if dist: "distinct (map player scores)"
    proof
      assume "player s \<in> player ` set ?low"
      then obtain t where t: "t \<in> set scores" "getNetScore t = Min ?A" "player t = player s"
        by auto
      from dist have "inj_on player (set scores)" by (simp add: distinct_map)
      with s(1) t(1,3) have "t = s" by (auto dest: inj_onD)
      with t(2) lt show False by simp
    qed
    with s(1) lt notin show ?thesis by blast
  qed
  show ?thesis
    unfolding Let_def using x a b c d e by blast
qed

theorem determineLosers_policy_witness:
  "calculateScores [(4::nat, ROCK), (5, ROCK), (6, PAPER)]
     = [\<lparr>player = 4, choice = ROCK, wins = 0, losses = 1\<rparr>,
        \<lparr>player = 5, choice = ROCK, wins = 0, losses = 1\<rparr>,
        \<lparr>player = 6, choice = PAPER, wins = 2, losses = 0\<rparr>]
   \<and> Min (getNetScore ` set (calculateScores [(4::nat, ROCK), (5, ROCK), (6, PAPER)])) = - 1
   \<and> Max (getNetScore ` set (calculateScores [(4::nat, ROCK), (5, ROCK), (6, PAPER)])) = 2
   \<and> determineLosers (calculateScores [(4::nat, ROCK), (5, ROCK), (6, PAPER)]) = Inr [4, 5]"
proof -
  let ?scores = "calculateScores [(4::nat, ROCK), (5, ROCK), (6, PAPER)]"
  have s: "?scores = [\<lparr>player = 4, choice = ROCK, wins = 0, losses = 1\<rparr>,
                      \<lparr>player = 5, choice = ROCK, wins = 0, losses = 1\<rparr>,
                      \<lparr>player = 6, choice = PAPER, wins = 2, losses = 0\<rparr>]"
    by (simp add: calculateScores_closed countResult_def compare_def getWinsAgainst_def)
  have ne: "?scores \<noteq> []" by (simp add: s)
  have range: "\<forall>t\<in>set ?scores. 0 \<le> wins t \<and> wins t \<le> 2147483647
                                  \<and> 0 \<le> losses t \<and> losses t \<le> 2147483647"
    by (simp add: s)
  have mn: "Min (getNetScore ` set ?scores) = - 1"
    by (simp add: s getNetScore_def int32_def)
  have mx: "Max (getNetScore ` set ?scores) = 2"
    by (simp add: s getNetScore_def int32_def)
  have low: "map player (filter (\<lambda>t. getNetScore t = - 1) ?scores) = [4, 5]"
    by (simp add: s getNetScore_def int32_def)
  have neq: "(- 1 :: int) \<noteq> 2" by simp
  note policy = determineLosers_policy [OF ne range, unfolded Let_def mn mx low]
  from policy neq s mn mx show ?thesis
    by blast
qed

text \<open>
  Claim C10. For a score list with a single entry the minimum and the maximum net score
  are the same, so the elimination step returns the empty loser list (replay) and the
  sole player is not eliminated.
\<close>

theorem determineLosers_single:
  "determineLosers [score] = Inr []
   \<and> scanNetScores [score] (getNetScore score) (getNetScore score)
       = (getNetScore score, getNetScore score)"
  by (simp add: determineLosers_def)

theorem determineLosers_single_witness:
  "determineLosers [\<lparr>player = 7::nat, choice = LIZARD, wins = 3, losses = 1\<rparr>] = Inr []"
  using determineLosers_single [of "\<lparr>player = 7::nat, choice = LIZARD, wins = 3, losses = 1\<rparr>"]
  by simp

text \<open>
  Claim C7. For a group of two players: when the two choices are equal the round is a
  draw and the elimination step returns the empty loser list (replay); when they differ
  it returns exactly one loser, the player whose choice is beaten, so the other of two
  different players is not eliminated.
\<close>

theorem two_player_round:
  "determineLosers (calculateScores [(p1, c1), (p2, c2)])
     = Inr (if c1 = c2 then [] else if compare c1 c2 = WIN then [p2] else [p1])"
  by (cases c1; cases c2;
      simp add: calculateScores_closed countResult_def determineLosers_def getNetScore_def
                int32_def compare_def getWinsAgainst_def)

theorem two_player_round_witness:
  "determineLosers (calculateScores [(5::nat, ROCK), (6, SCISSORS)]) = Inr [6]
   \<and> determineLosers (calculateScores [(5::nat, LIZARD), (6, SCISSORS)]) = Inr [5]
   \<and> determineLosers (calculateScores [(5::nat, SPOCK), (6, SPOCK)]) = Inr []"
  using two_player_round [of "5::nat" ROCK 6 SCISSORS]
    two_player_round [of "5::nat" LIZARD 6 SCISSORS]
    two_player_round [of "5::nat" SPOCK 6 SPOCK]
  by (simp add: compare_def getWinsAgainst_def)

section \<open>Properties of the group partitioner\<close>

lemma static_cast_int_small: "k < 2147483648 \<Longrightarrow> static_cast_int k = int k"
  by (simp add: static_cast_int_def Let_def)

lemma c_div_nonneg: "0 \<le> n \<Longrightarrow> c_div n 4 = n div 4"
  by (cases "n = 0") (simp_all add: c_div_def)

lemma c_mod_nonneg: "0 \<le> n \<Longrightarrow> c_mod n 4 = n mod 4"
  by (simp add: c_mod_def c_div_nonneg minus_mult_div_eq_mod)

declare fillGroup.simps [simp del]

lemma fillGroup_eq:
  "fillGroup shuffled sz i idx grp
     = (grp @ take (nat (sz - i)) (drop idx shuffled),
        idx + min (nat (sz - i)) (length shuffled - idx))"
proof (induction shuffled sz i idx grp rule: fillGroup.induct)
  case (1 shuffled sz i idx grp)
  show ?case
  proof (cases "i < sz \<and> idx < length shuffled")
    case True
    then have n: "nat (sz - i) = Suc (nat (sz - (i + 1)))" by linarith
    have d: "drop idx shuffled = shuffled ! idx # drop (Suc idx) shuffled"
      using True by (simp add: Cons_nth_drop_Suc)
    have m: "Suc (min (nat (sz - (i + 1))) (length shuffled - Suc idx))
        = min (Suc (nat (sz - (i + 1)))) (length shuffled - idx)"
      using True by linarith
    from True 1 show ?thesis
      by (subst fillGroup.simps) (simp add: n d m)
  next
    case False
    then show ?thesis
      by (subst fillGroup.simps) auto
  qed
qed

lemma makeGroups_fit:
  "\<forall>s\<in>set sizes. 0 \<le> s \<Longrightarrow> idx + nat (sum_list sizes) \<le> length shuffled \<Longrightarrow>
   map length (makeGroups shuffled sizes idx) = map nat sizes
   \<and> concat (makeGroups shuffled sizes idx) = take (nat (sum_list sizes)) (drop idx shuffled)"
proof (induction sizes arbitrary: idx)
  case Nil
  then show ?case by simp
next
  case (Cons s sizes)
  have s0: "0 \<le> s" and rest0: "\<forall>s\<in>set sizes. 0 \<le> s" and sum0: "0 \<le> sum_list sizes"
    using Cons.prems(1) by (auto intro: sum_list_nonneg)
  have fit: "idx + nat s + nat (sum_list sizes) \<le> length shuffled"
    using Cons.prems(2) s0 sum0 by (simp add: nat_add_distrib)
  then have m: "min (nat s) (length shuffled - idx) = nat s" by simp
  have IH: "map length (makeGroups shuffled sizes (idx + nat s)) = map nat sizes
      \<and> concat (makeGroups shuffled sizes (idx + nat s))
          = take (nat (sum_list sizes)) (drop (idx + nat s) shuffled)"
    using fit by (intro Cons.IH rest0) simp
  have t: "take (nat s) (drop idx shuffled)
        @ take (nat (sum_list sizes)) (drop (idx + nat s) shuffled)
      = take (nat s + nat (sum_list sizes)) (drop idx shuffled)"
    by (simp add: take_add add.commute)
  show ?case
    using IH fit s0 sum0 by (simp add: fillGroup_eq m t nat_add_distrib)
qed

lemma groupSizes_nat:
  "groupSizes (int n) =
     (if n mod 4 = 0 then replicate (n div 4) 4
      else if n mod 4 = 1 then replicate (n div 4 - 1) 4 @ [3, 2]
      else if n mod 4 = 2 then replicate (n div 4) 4 @ [2]
      else replicate (n div 4) 4 @ [3])"
proof -
  have d: "c_div (int n) 4 = int (n div 4)" by (simp add: c_div_nonneg zdiv_int)
  have m: "c_mod (int n) 4 = int (n mod 4)" by (simp add: c_mod_nonneg zmod_int)
  have p: "nat (int (n div 4) - 1) = n div 4 - 1" by simp
  have e: "int (n mod 4) = 0 \<longleftrightarrow> n mod 4 = 0" "int (n mod 4) = 1 \<longleftrightarrow> n mod 4 = 1"
    "int (n mod 4) = 2 \<longleftrightarrow> n mod 4 = 2"
    by linarith+
  show ?thesis
    unfolding groupSizes_def Let_def d m p e by simp
qed

lemma groupSizes_range: "s \<in> set (groupSizes (int n)) \<Longrightarrow> s = 2 \<or> s = 3 \<or> s = 4"
  by (auto simp: groupSizes_nat split: if_splits)

lemma sum_list_replicate_int: "sum_list (replicate k (c::int)) = int k * c"
  by (induction k) (simp_all add: algebra_simps)

lemma sum_groupSizes: "5 \<le> n \<Longrightarrow> sum_list (groupSizes (int n)) = int n"
proof -
  assume n: "5 \<le> n"
  have q: "1 \<le> n div 4" using n by simp
  have r: "n mod 4 = 0 \<or> n mod 4 = 1 \<or> n mod 4 = 2 \<or> n mod 4 = 3"
    by presburger
  have e: "int n = 4 * int (n div 4) + int (n mod 4)"
    by (metis mult_div_mod_eq of_nat_add of_nat_mult of_nat_numeral)
  have p: "int (n div 4 - Suc 0) = int (n div 4) - 1" using q by simp
  show ?thesis
    using r by (subst (2) e) (auto simp: groupSizes_nat sum_list_replicate_int p)
qed

lemma divideIntoGroups_sizes:
  assumes perm: "mset (shuffle members) = mset members"
    and lo: "5 \<le> length members" and hi: "length members < 2147483648"
  shows "map length (divideIntoGroups shuffle members)
           = map nat (groupSizes (int (length members)))
       \<and> concat (divideIntoGroups shuffle members) = shuffle members"
proof -
  let ?n = "length members"
  have len: "length (shuffle members) = ?n"
    using perm by (metis size_mset)
  have cast: "static_cast_int ?n = int ?n"
    using hi by (rule static_cast_int_small)
  have nonneg: "\<forall>s\<in>set (groupSizes (int ?n)). 0 \<le> s"
    using groupSizes_range by fastforce
  have fit: "0 + nat (sum_list (groupSizes (int ?n))) \<le> length (shuffle members)"
    using lo by (simp add: sum_groupSizes len)
  from makeGroups_fit [OF nonneg fit] show ?thesis
    using lo by (simp add: divideIntoGroups_def Let_def cast sum_groupSizes len)
qed


text \<open>
  Claim C3. Let the shuffle be any permutation. For at most five active players there is
  no partitioning: the round has the single group of all active players. For \<open>n\<close>
  active players with \<open>6 \<le> n \<le> 40\<close> every group has between two and four members, the
  group sizes add up to \<open>n\<close>, the groups together hold every player as often as the
  input does (so each of \<open>n\<close> different players is in exactly one group), and the sizes
  follow the remainder policy: \<open>n div 4\<close> fours when \<open>n mod 4 = 0\<close>; \<open>n div 4 - 1\<close> fours,
  a three and a two when \<open>n mod 4 = 1\<close>; \<open>n div 4\<close> fours and a two when \<open>n mod 4 = 2\<close>;
  \<open>n div 4\<close> fours and a three when \<open>n mod 4 = 3\<close>.
\<close>

theorem partition_policy:
  assumes perm: "mset (shuffle members) = mset members"
  shows "(length members \<le> 5 \<longrightarrow> roundGroups shuffle members = [members])
       \<and> (6 \<le> length members \<and> length members \<le> 40 \<longrightarrow>
           (let groups = roundGroups shuffle members; n = length members
            in (\<forall>grp\<in>set groups. 2 \<le> length grp \<and> length grp \<le> 4)
             \<and> sum_list (map length groups) = n
             \<and> mset (concat groups) = mset members
             \<and> (distinct members \<longrightarrow> distinct (concat groups))
             \<and> map length groups =
                 (if n mod 4 = 0 then replicate (n div 4) 4
                  else if n mod 4 = 1 then replicate (n div 4 - 1) 4 @ [3, 2]
                  else if n mod 4 = 2 then replicate (n div 4) 4 @ [2]
                  else replicate (n div 4) 4 @ [3])))"
proof (intro conjI impI)
  assume "length members \<le> 5"
  then show "roundGroups shuffle members = [members]"
    by (simp add: roundGroups_def)
next
  assume range: "6 \<le> length members \<and> length members \<le> 40"
  let ?n = "length members"
  let ?groups = "roundGroups shuffle members"
  have g: "?groups = divideIntoGroups shuffle members"
    using range by (simp add: roundGroups_def)
  have sz: "map length ?groups = map nat (groupSizes (int ?n))"
    and cc: "concat ?groups = shuffle members"
    using divideIntoGroups_sizes [of shuffle members] perm range by (simp_all add: g)
  have a: "\<forall>grp\<in>set ?groups. 2 \<le> length grp \<and> length grp \<le> 4"
  proof
    fix grp assume "grp \<in> set ?groups"
    then have "length grp \<in> set (map length ?groups)" by simp
    then obtain s where "s \<in> set (groupSizes (int ?n))" "length grp = nat s"
      unfolding sz by auto
    with groupSizes_range [of s ?n] show "2 \<le> length grp \<and> length grp \<le> 4" by auto
  qed
  have b: "sum_list (map length ?groups) = ?n"
    by (metis cc length_concat perm size_mset)
  have c: "mset (concat ?groups) = mset members"
    by (simp add: cc perm)
  have d: "distinct members \<longrightarrow> distinct (concat ?groups)"
    using c by (metis mset_eq_imp_distinct_iff)
  have e: "map length ?groups =
      (if ?n mod 4 = 0 then replicate (?n div 4) 4
       else if ?n mod 4 = 1 then replicate (?n div 4 - 1) 4 @ [3, 2]
       else if ?n mod 4 = 2 then replicate (?n div 4) 4 @ [2]
       else replicate (?n div 4) 4 @ [3])"
    unfolding sz groupSizes_nat by simp
  show "let groups = ?groups; n = ?n
        in (\<forall>grp\<in>set groups. 2 \<le> length grp \<and> length grp \<le> 4)
         \<and> sum_list (map length groups) = n
         \<and> mset (concat groups) = mset members
         \<and> (distinct members \<longrightarrow> distinct (concat groups))
         \<and> map length groups =
             (if n mod 4 = 0 then replicate (n div 4) 4
              else if n mod 4 = 1 then replicate (n div 4 - 1) 4 @ [3, 2]
              else if n mod 4 = 2 then replicate (n div 4) 4 @ [2]
              else replicate (n div 4) 4 @ [3])"
    unfolding Let_def using a b c d e by blast
qed

theorem partition_policy_witness:
  "mset (rev [2, 3, 4, 5, 6, 7, 8 :: nat]) = mset [2, 3, 4, 5, 6, 7, 8]
   \<and> map length (roundGroups rev [2, 3, 4, 5, 6, 7, 8 :: nat]) = [4, 3]
   \<and> mset (concat (roundGroups rev [2, 3, 4, 5, 6, 7, 8 :: nat])) = mset [2, 3, 4, 5, 6, 7, 8]
   \<and> distinct (concat (roundGroups rev [2, 3, 4, 5, 6, 7, 8 :: nat]))
   \<and> roundGroups rev [2, 3, 4 :: nat] = [[2, 3, 4]]"
proof -
  let ?seven = "[2, 3, 4, 5, 6, 7, 8 :: nat]"
  let ?three = "[2, 3, 4 :: nat]"
  have seven: "mset (rev ?seven) = mset ?seven"
    by simp
  have three: "mset (rev ?three) = mset ?three"
    by simp
  have range: "6 \<le> length ?seven \<and> length ?seven \<le> 40" and small: "length ?three \<le> 5"
    and d: "distinct ?seven"
    by simp_all
  have sizes: "(if length ?seven mod 4 = 0 then replicate (length ?seven div 4) 4
       else if length ?seven mod 4 = 1 then replicate (length ?seven div 4 - 1) 4 @ [3, 2]
       else if length ?seven mod 4 = 2 then replicate (length ?seven div 4) 4 @ [2]
       else replicate (length ?seven div 4) 4 @ [3]) = [4, 3 :: nat]"
    by code_simp
  note seven_players = partition_policy [of rev ?seven, OF seven, unfolded Let_def]
  note three_players = partition_policy [of rev ?three, OF three]
  from seven_players range d three_players small seven show ?thesis
    unfolding sizes by blast
qed


section \<open>Properties of the tournament controller\<close>

lemma record_fold_flags:
  "map isActive (fold (\<lambda>(p, c) r. r[p := recordChoice c (r ! p)]) pcs roster)
     = map isActive roster"
proof (induction pcs arbitrary: roster)
  case Nil
  then show ?case by simp
next
  case (Cons pc pcs)
  obtain p c where pc: "pc = (p, c)" by (cases pc)
  have "map isActive (roster[p := recordChoice c (roster ! p)]) = map isActive roster"
  proof (cases "p < length roster")
    case True
    then show ?thesis
      by (simp add: recordChoice_def map_update list_update_same_conv)
  next
    case False
    then show ?thesis by (simp add: list_update_beyond)
  qed
  then show ?case by (simp add: pc Cons.IH)
qed

lemma collectChoices_flags:
  "collectChoices roster members made = (roster', choices) \<Longrightarrow>
   map isActive roster' = map isActive roster"
  by (auto simp: collectChoices_def Let_def record_fold_flags)

lemma executeRound_flags:
  "executeRound roster members made = (roster', r) \<Longrightarrow>
   map isActive roster' = map isActive roster"
  by (auto simp: executeRound_def split: prod.splits dest: collectChoices_flags)

lemma deactivate_length [simp]: "length (deactivate losers roster) = length roster"
  unfolding deactivate_def by (induction losers arbitrary: roster) simp_all

lemma setActive_False_flag:
  "i < length roster \<Longrightarrow>
   isActive (roster[l := setActive False (roster ! l)] ! i)
     = (isActive (roster ! i) \<and> i \<noteq> l)"
  by (cases "l < length roster") (auto simp: nth_list_update setActive_def)

lemma deactivate_flag:
  "i < length roster \<Longrightarrow>
   isActive (deactivate losers roster ! i) = (isActive (roster ! i) \<and> i \<notin> set losers)"
proof (induction losers arbitrary: roster)
  case Nil
  then show ?case by (simp add: deactivate_def)
next
  case (Cons l losers)
  let ?r = "roster[l := setActive False (roster ! l)]"
  have "deactivate (l # losers) roster = deactivate losers ?r"
    by (simp add: deactivate_def)
  moreover have "isActive (deactivate losers ?r ! i) = (isActive (?r ! i) \<and> i \<notin> set losers)"
    using Cons.prems by (intro Cons.IH) simp
  ultimately show ?case
    using Cons.prems by (auto simp: setActive_False_flag)
qed

lemma step_flags:
  assumes "step g g'"
  shows "length (players g') = length (players g)
       \<and> (\<forall>i < length (players g). isActive (players g' ! i) \<longrightarrow> isActive (players g ! i))"
  using assms
proof cases
  case (round_start shuffled)
  then show ?thesis by simp
next
  case (replay grp rest made roster')
  from executeRound_flags [OF replay(4)]
  have m: "map isActive roster' = map isActive (players g)" .
  then have l: "length roster' = length (players g)" by (metis length_map)
  have "isActive (roster' ! i) = isActive (players g ! i)" if "i < length (players g)" for i
    using m that by (metis l nth_map)
  then show ?thesis using replay(1) l by simp
next
  case (eliminate grp rest made roster' losers)
  from executeRound_flags [OF eliminate(4)]
  have m: "map isActive roster' = map isActive (players g)" .
  then have l: "length roster' = length (players g)" by (metis length_map)
  have "isActive (roster' ! i) = isActive (players g ! i)" if "i < length (players g)" for i
    using m that by (metis l nth_map)
  then show ?thesis using eliminate(1) l by (simp add: deactivate_flag)
qed


text \<open>
  Claim C8. Along every run of the tournament loop, from any state: a player whose
  active flag is false in some state has it false in every later state, so no step of
  the controller sets the flag back to true. (The steps are all that a run from \<open>setup\<close>
  can do: by \<open>reachable_groups\<close> below such a run never plays an empty group.)
\<close>

theorem eliminated_stays_eliminated:
  assumes "step\<^sup>*\<^sup>* g g'" and "i < length (players g)" and "\<not> isActive (players g ! i)"
  shows "i < length (players g') \<and> \<not> isActive (players g' ! i)"
  using assms
proof (induction rule: rtranclp_induct)
  case base
  then show ?case by simp
next
  case (step y z)
  then have "i < length (players y)" "\<not> isActive (players y ! i)" by simp_all
  with step_flags [OF step.hyps(2)] show ?case by auto
qed


theorem eliminated_stays_eliminated_witness:
  "step\<^sup>*\<^sup>*
     \<lparr>players = [setActive False (newPlayer ''Ann'' True), setActive False (newPlayer ''Bob'' True),
                 newPlayer ''Bot 1'' False, newPlayer ''Bot 2'' False],
      pending = []\<rparr>
     \<lparr>players = [\<lparr>name = ''Ann'', isHuman = True, choiceHistory = [], isActive = False\<rparr>,
                 \<lparr>name = ''Bob'', isHuman = True, choiceHistory = [], isActive = False\<rparr>,
                 \<lparr>name = ''Bot 1'', isHuman = False, choiceHistory = [PAPER], isActive = True\<rparr>,
                 \<lparr>name = ''Bot 2'', isHuman = False, choiceHistory = [ROCK], isActive = False\<rparr>],
      pending = []\<rparr>
   \<and> \<not> isActive ([setActive False (newPlayer ''Ann'' True), setActive False (newPlayer ''Bob'' True),
                   newPlayer ''Bot 1'' False, newPlayer ''Bot 2'' False] ! 0)
   \<and> \<not> isActive ([\<lparr>name = ''Ann'', isHuman = True, choiceHistory = [], isActive = False\<rparr>,
                 \<lparr>name = ''Bob'', isHuman = True, choiceHistory = [], isActive = False\<rparr>,
                 \<lparr>name = ''Bot 1'', isHuman = False, choiceHistory = [PAPER], isActive = True\<rparr>,
                 \<lparr>name = ''Bot 2'', isHuman = False, choiceHistory = [ROCK], isActive = False\<rparr>]
                 ! 0)"
proof -
  let ?R0 = "[setActive False (newPlayer ''Ann'' True), setActive False (newPlayer ''Bob'' True),
              newPlayer ''Bot 1'' False, newPlayer ''Bot 2'' False]"
  let ?R1 = "[\<lparr>name = ''Ann'', isHuman = True, choiceHistory = [], isActive = False\<rparr>,
              \<lparr>name = ''Bob'', isHuman = True, choiceHistory = [], isActive = False\<rparr>,
              \<lparr>name = ''Bot 1'', isHuman = False, choiceHistory = [PAPER], isActive = True\<rparr>,
              \<lparr>name = ''Bot 2'', isHuman = False, choiceHistory = [ROCK], isActive = True\<rparr>]"
  let ?R2 = "[\<lparr>name = ''Ann'', isHuman = True, choiceHistory = [], isActive = False\<rparr>,
              \<lparr>name = ''Bob'', isHuman = True, choiceHistory = [], isActive = False\<rparr>,
              \<lparr>name = ''Bot 1'', isHuman = False, choiceHistory = [PAPER], isActive = True\<rparr>,
              \<lparr>name = ''Bot 2'', isHuman = False, choiceHistory = [ROCK], isActive = False\<rparr>]"
  let ?G0 = "\<lparr>players = ?R0, pending = []\<rparr>"
  let ?G1 = "\<lparr>players = ?R0, pending = [[2, 3]]\<rparr>"
  let ?G2 = "\<lparr>players = ?R2, pending = []\<rparr>"
  have act: "getActivePlayers ?R0 = [2, 3]"
    by (simp add: getActivePlayers_def setActive_def newPlayer_def)
  have groups: "roundGroups (\<lambda>activePlayers. [3, 2]) [2, 3 :: nat] = [[2, 3]]"
    by (simp add: roundGroups_def)
  have "step ?G0 (?G0\<lparr>pending :=
      roundGroups (\<lambda>activePlayers. [3, 2]) (getActivePlayers (players ?G0))\<rparr>)"
    by (rule step.round_start) (simp_all add: act)
  then have first: "step ?G0 ?G1"
    by (simp add: act groups)
  have round: "executeRound ?R0 [2, 3] [PAPER, ROCK] = (?R1, Inr [3])"
    by code_simp
  have out: "deactivate [3] ?R1 = ?R2"
    by code_simp
  have "step ?G1 (?G1\<lparr>players := deactivate [3] ?R1, pending := []\<rparr>)"
    by (rule step.eliminate [where grp = "[2, 3]" and made = "[PAPER, ROCK]"])
       (simp_all add: round)
  then have second: "step ?G1 ?G2"
    by (simp add: out)
  from first second have run: "step\<^sup>*\<^sup>* ?G0 ?G2"
    by (rule converse_rtranclp_into_rtranclp [OF _ r_into_rtranclp])
  have i: "0 < length (players ?G0)" by simp
  have off: "\<not> isActive (players ?G0 ! 0)" by (simp add: setActive_def)
  from eliminated_stays_eliminated [OF run i off] run off show ?thesis
    by simp
qed

subsection \<open>The groups of a run\<close>

lemma getActivePlayers_range: "p \<in> set (getActivePlayers roster) \<Longrightarrow> p < length roster"
  by (simp add: getActivePlayers_def)

lemma length_getActivePlayers: "length (getActivePlayers roster) \<le> length roster"
  unfolding getActivePlayers_def by (metis length_filter_le length_upt minus_nat.diff_0)

lemma roundGroups_ok:
  assumes perm: "mset shuffled = mset members"
    and lo: "1 < length members" and hi: "length members < 2147483648"
    and grp: "grp \<in> set (roundGroups (\<lambda>activePlayers. shuffled) members)"
  shows "2 \<le> length grp \<and> set grp \<subseteq> set members"
proof (cases "length members > 5")
  case False
  with grp lo show ?thesis by (simp add: roundGroups_def)
next
  case True
  let ?groups = "divideIntoGroups (\<lambda>activePlayers. shuffled) members"
  have in_groups: "grp \<in> set ?groups" using grp True by (simp add: roundGroups_def)
  have sz: "map length ?groups = map nat (groupSizes (int (length members)))"
    and cc: "concat ?groups = shuffled"
    using divideIntoGroups_sizes [of "\<lambda>activePlayers. shuffled" members] perm True hi
    by simp_all
  from in_groups have "length grp \<in> set (map length ?groups)" by simp
  then obtain s where "s \<in> set (groupSizes (int (length members)))" "length grp = nat s"
    unfolding sz by auto
  with groupSizes_range [of s "length members"] have "2 \<le> length grp" by auto
  moreover have "set grp \<subseteq> set (concat ?groups)" using in_groups by auto
  then have "set grp \<subseteq> set members" unfolding cc using perm by (metis set_mset_mset)
  ultimately show ?thesis by simp
qed

lemma step_groups_ok:
  assumes "step g g'" and "groups_ok g" and "length (players g) < 2147483648"
  shows "groups_ok g'"
  using assms(1)
proof cases
  case (round_start shuffled)
  let ?act = "getActivePlayers (players g)"
  have hi: "length ?act < 2147483648"
    using length_getActivePlayers [of "players g"] assms(3) by simp
  have "2 \<le> length grp \<and> (\<forall>p\<in>set grp. p < length (players g))"
    if "grp \<in> set (roundGroups (\<lambda>activePlayers. shuffled) ?act)" for grp
    using roundGroups_ok [OF round_start(4) round_start(3) hi that]
    by (auto dest: getActivePlayers_range)
  then show ?thesis by (simp add: round_start(1) groups_ok_def)
next
  case (replay grp rest made roster')
  from step_flags [OF assms(1)] have "length (players g') = length (players g)" by simp
  with assms(2) replay(1) show ?thesis by (simp add: groups_ok_def)
next
  case (eliminate grp rest made roster' losers)
  from step_flags [OF assms(1)] have "length (players g') = length (players g)" by simp
  with assms(2) eliminate(1,2) show ?thesis by (simp add: groups_ok_def)
qed

lemma reachable_groups:
  assumes "step\<^sup>*\<^sup>* (game_setup entrants) g" and "length entrants < 2147483648"
  shows "groups_ok g \<and> length (players g) = length entrants"
  using assms
proof (induction rule: rtranclp_induct)
  case base
  then show ?case by (simp add: game_setup_def groups_ok_def)
next
  case (step y z)
  then have ok: "groups_ok y" and len: "length (players y) = length entrants" by simp_all
  from step_groups_ok [OF step.hyps(2) ok] step.prems len have "groups_ok z" by simp
  moreover from step_flags [OF step.hyps(2)] len
  have "length (players z) = length entrants" by simp
  ultimately show ?case by simp
qed

lemma length_collectChoices:
  assumes "length made = length members"
  shows "length (snd (collectChoices roster members made)) = length members"
proof -
  let ?h = "filter (\<lambda>p. isHuman (roster ! p)) members"
  let ?c = "filter (\<lambda>p. \<not> isHuman (roster ! p)) members"
  have sum: "length ?h + length ?c = length members"
    by (rule sum_length_filter_compl)
  then have "length (zip ?h (take (length ?h) made)) = length ?h"
    and "length (zip ?c (drop (length ?h) made)) = length ?c"
    using assms by simp_all
  with sum show ?thesis
    by (simp add: collectChoices_def Let_def)
qed

lemma length_calculateScores [simp]: "length (calculateScores choices) = length choices"
  by (simp add: calculateScores_def)

lemma executeRound_returns:
  assumes "members \<noteq> []" and "length made = length members"
  shows "\<exists>roster' losers. executeRound roster members made = (roster', Inr losers)"
proof -
  obtain roster' choices where c: "collectChoices roster members made = (roster', choices)"
    by (cases "collectChoices roster members made")
  with length_collectChoices [OF assms(2), of roster] have "length choices = length members"
    by simp
  with assms(1) have "calculateScores choices \<noteq> []"
    by (metis length_calculateScores length_0_conv)
  from determineLosers_returns [OF this] c show ?thesis
    by (auto simp: executeRound_def)
qed


text \<open>
  Claim C9 as stated does not hold of the code. With an empty round-entry list the
  evaluator returns an empty score list, and the elimination step reads its first entry
  without a test: the outcome is undefined behaviour, which is not an exception, so the
  handler in \<open>main\<close> reports nothing.
\<close>

theorem empty_round_is_undefined:
  "determineLosers (calculateScores ([] :: (nat \<times> Choice) list)) = Inl UndefinedBehaviour
   \<and> snd (executeRound [] [] []) = Inl UndefinedBehaviour
   \<and> \<not> reported UndefinedBehaviour"
  by (simp add: executeRound_def collectChoices_def calculateScores_def determineLosers_def)

text \<open>
  Claim C9, amended. The elimination step has no guard for an empty list: it returns a
  loser list exactly when the round-entry list is not empty, and on the empty list its
  behaviour is undefined. The controller never gets there: in every state that a run
  reaches from \<open>setup\<close> (with fewer than \<open>2^31\<close> entrants), the group that is played next
  has at least two members, and \<open>executeRound\<close> returns a loser list for it whatever
  the players choose.
\<close>

theorem elimination_step_needs_entries:
  "((\<exists>losers. determineLosers (calculateScores choices) = Inr losers) \<longleftrightarrow> choices \<noteq> [])
   \<and> (determineLosers (calculateScores choices) = Inl UndefinedBehaviour \<longleftrightarrow> choices = [])
   \<and> (length entrants < 2147483648 \<and> step\<^sup>*\<^sup>* (game_setup entrants) g
         \<and> pending g = grp # rest \<and> length made = length grp
       \<longrightarrow> 2 \<le> length grp
         \<and> (\<exists>roster' losers. executeRound (players g) grp made = (roster', Inr losers)))"
proof (intro conjI impI)
  show a: "(\<exists>losers. determineLosers (calculateScores choices) = Inr losers) \<longleftrightarrow> choices \<noteq> []"
  proof (cases "choices = []")
    case True
    then show ?thesis by (simp add: calculateScores_def determineLosers_def)
  next
    case False
    then have "calculateScores choices \<noteq> []"
      by (metis length_calculateScores length_0_conv)
    from determineLosers_returns [OF this] False show ?thesis by simp
  qed
  show "determineLosers (calculateScores choices) = Inl UndefinedBehaviour \<longleftrightarrow> choices = []"
  proof (cases "choices = []")
    case True
    then show ?thesis by (simp add: calculateScores_def determineLosers_def)
  next
    case False
    with a show ?thesis by auto
  qed
next
  assume h: "length entrants < 2147483648 \<and> step\<^sup>*\<^sup>* (game_setup entrants) g
           \<and> pending g = grp # rest \<and> length made = length grp"
  then have "groups_ok g" using reachable_groups [of entrants g] by simp
  with h show "2 \<le> length grp" by (simp add: groups_ok_def)
  then have "grp \<noteq> []" by auto
  with h show "\<exists>roster' losers. executeRound (players g) grp made = (roster', Inr losers)"
    by (intro executeRound_returns) simp_all
qed


theorem elimination_step_needs_entries_witness:
  "length [(''Ann'', True), (''Bot 1'', False)] < (2147483648 :: nat)
   \<and> step\<^sup>*\<^sup>* (game_setup [(''Ann'', True), (''Bot 1'', False)])
        ((game_setup [(''Ann'', True), (''Bot 1'', False)])\<lparr>pending := [[0, 1]]\<rparr>)
   \<and> (\<exists>roster' losers.
         executeRound (players (game_setup [(''Ann'', True), (''Bot 1'', False)]))
           [0, 1] [ROCK, PAPER] = (roster', Inr losers))
   \<and> (\<exists>losers. determineLosers (calculateScores [(5 :: nat, ROCK), (6, PAPER)]) = Inr losers)"
proof -
  let ?E = "[(''Ann'', True), (''Bot 1'', False)]"
  let ?G0 = "game_setup ?E"
  let ?G1 = "?G0\<lparr>pending := [[0, 1]]\<rparr>"
  have act: "getActivePlayers (players ?G0) = [0, 1]"
    by (simp add: getActivePlayers_def game_setup_def newPlayer_def)
  have "step ?G0 (?G0\<lparr>pending :=
      roundGroups (\<lambda>activePlayers. [0, 1]) (getActivePlayers (players ?G0))\<rparr>)"
    by (rule step.round_start) (simp_all add: act, simp add: game_setup_def)
  then have s: "step ?G0 ?G1"
    by (simp add: act roundGroups_def)
  then have run: "step\<^sup>*\<^sup>* ?G0 ?G1" by (rule r_into_rtranclp)
  have small: "length ?E < (2147483648 :: nat)" by simp
  have p: "pending ?G1 = [0, 1] # []" by simp
  have pl: "players ?G1 = players ?G0" by simp
  have l: "length [ROCK, PAPER] = length [0 :: nat, 1]" by simp
  have ne: "[(5 :: nat, ROCK), (6, PAPER)] \<noteq> []" by simp
  note T = elimination_step_needs_entries
    [of "[(5 :: nat, ROCK), (6, PAPER)]" ?E ?G1 "[0, 1]" "[]" "[ROCK, PAPER]"]
  from T small run p l ne show ?thesis
    unfolding pl by blast
qed

end
